theory Spec2Isabelle
  imports Main "HOL-Library.Sublist"
begin

section \<open>Python values and text\<close>

text \<open>
  The parsers of \<^verbatim>\<open>textparser.py\<close> work on the text obtained by
  \<^verbatim>\<open>data.decode('utf-8')\<close>. Text is modelled as \<^typ>\<open>string\<close>; a
  \<^typ>\<open>char\<close> stands for a code point below 256. The parsers below take the decoded
  text. Python integers are unbounded and modelled as \<^typ>\<open>int\<close>.
\<close>

text \<open>A field after the \<^verbatim>\<open>try: int(i) except ValueError: i\<close> conversion.\<close>

datatype pyval = PInt int | PStr string

text \<open>The exceptions the modelled code raises; a \<^verbatim>\<open>KeyError\<close> carries the missing key.\<close>

datatype py_error =
    IndexError | ValueError | TypeError | AttributeError | KeyError pyval
  | UnicodeDecodeError | ImageCreationError

subsection \<open>\<^verbatim>\<open>str\<close> methods\<close>

text \<open>Line boundaries of \<^verbatim>\<open>str.splitlines()\<close> among the code points below 256.\<close>

definition is_linebreak :: "char \<Rightarrow> bool" where
  "is_linebreak c \<longleftrightarrow> of_char c \<in> {10, 11, 12, 13, 28, 29, 30, 133 :: nat}"

text \<open>
  \<^verbatim>\<open>str.splitlines()\<close>: \<open>cur\<close> is the line read so far; \<^verbatim>\<open>\r\n\<close> is one
  boundary; no empty last line is produced.
\<close>

fun splitlines_from :: "string \<Rightarrow> string \<Rightarrow> string list" where
  "splitlines_from cur [] = (if cur = [] then [] else [cur])"
| "splitlines_from cur (c # cs) =
     (if of_char c = (13::nat) \<and> cs \<noteq> [] \<and> of_char (hd cs) = (10::nat)
        then cur # splitlines_from [] (tl cs)
      else if is_linebreak c then cur # splitlines_from [] cs
      else splitlines_from (cur @ [c]) cs)"

definition splitlines :: "string \<Rightarrow> string list" where
  "splitlines s = splitlines_from [] s"

text \<open>\<^verbatim>\<open>s.split(d)\<close> for a one-character separator: never an empty list.\<close>

fun split_chr :: "char \<Rightarrow> string \<Rightarrow> string list" where
  "split_chr d [] = [[]]"
| "split_chr d (c # cs) =
     (if c = d then [] # split_chr d cs
      else (case split_chr d cs of [] \<Rightarrow> [[c]] | w # ws \<Rightarrow> (c # w) # ws))"

text \<open>\<^verbatim>\<open>p in s\<close> for strings.\<close>

fun contains :: "string \<Rightarrow> string \<Rightarrow> bool" where
  "contains p [] = (p = [])"
| "contains p (c # cs) = (prefix p (c # cs) \<or> contains p cs)"

text \<open>\<^verbatim>\<open>s.count(p)\<close>: the number of non-overlapping occurrences, left to right.\<close>

function str_count :: "string \<Rightarrow> string \<Rightarrow> nat" where
  "str_count p s =
     (if p = [] then Suc (length s)
      else if s = [] then 0
      else if prefix p s then Suc (str_count p (drop (length p) s))
      else str_count p (tl s))"
  by pat_completeness auto
termination
  by (relation "measure (\<lambda>(p, s). length s)") auto

declare str_count.simps [simp del]

text \<open>\<^verbatim>\<open>s.find(p)\<close>: the index of the first occurrence, \<open>-1\<close> when there is none.\<close>

fun find_from :: "nat \<Rightarrow> string \<Rightarrow> string \<Rightarrow> int" where
  "find_from i p [] = (if p = [] then int i else - 1)"
| "find_from i p (c # cs) = (if prefix p (c # cs) then int i else find_from (Suc i) p cs)"

definition str_find :: "string \<Rightarrow> string \<Rightarrow> int" where
  "str_find p s = find_from 0 p s"

text \<open>
  The slice \<^verbatim>\<open>s[i:j]\<close>: a negative index counts from the end, and both indices are
  clamped to the string.
\<close>

definition slice_index :: "nat \<Rightarrow> int \<Rightarrow> nat" where
  "slice_index n i = (if i < 0 then nat (max (i + int n) 0) else min (nat i) n)"

definition slice :: "'a list \<Rightarrow> int \<Rightarrow> int \<Rightarrow> 'a list" where
  "slice s i j =
     (let a = slice_index (length s) i; b = slice_index (length s) j
      in take (b - a) (drop a s))"

subsection \<open>\<^verbatim>\<open>int(s)\<close> and \<^verbatim>\<open>s.isdigit()\<close>\<close>

text \<open>
  The white space \<^verbatim>\<open>int\<close> accepts around a literal: tab to carriage return, space,
  and the code points 133 and 160.
\<close>

definition is_space :: "char \<Rightarrow> bool" where
  "is_space c \<longleftrightarrow> of_char c \<in> {9, 10, 11, 12, 13, 32, 133, 160 :: nat}"

definition is_decimal :: "char \<Rightarrow> bool" where
  "is_decimal c \<longleftrightarrow> 48 \<le> (of_char c :: nat) \<and> (of_char c :: nat) \<le> 57"

definition digit_val :: "char \<Rightarrow> int" where
  "digit_val c = int (of_char c) - 48"

text \<open>
  The digits of a literal after the sign: a digit first, then digits with single
  underscores between them. \<open>acc\<close> is the value read so far.
\<close>

fun int_digits :: "int \<Rightarrow> string \<Rightarrow> int option" where
  "int_digits acc [] = Some acc"
| "int_digits acc [c] = (if is_decimal c then Some (acc * 10 + digit_val c) else None)"
| "int_digits acc (c # d # cs) =
     (if is_decimal c then
        (if d = CHR ''_'' then (if cs = [] then None else int_digits (acc * 10 + digit_val c) cs)
         else int_digits (acc * 10 + digit_val c) (d # cs))
      else None)"

definition int_unsigned :: "string \<Rightarrow> int option" where
  "int_unsigned s = (if s = [] \<or> \<not> is_decimal (hd s) then None else int_digits 0 s)"

definition strip :: "string \<Rightarrow> string" where
  "strip s = rev (dropWhile is_space (rev (dropWhile is_space s)))"

text \<open>\<^verbatim>\<open>int(s)\<close> in base 10; \<open>None\<close> is the \<^verbatim>\<open>ValueError\<close>.\<close>

definition py_int :: "string \<Rightarrow> int option" where
  "py_int s =
     (case strip s of
        [] \<Rightarrow> None
      | c # cs \<Rightarrow>
          if c = CHR ''-'' then map_option uminus (int_unsigned cs)
          else if c = CHR ''+'' then int_unsigned cs
          else int_unsigned (c # cs))"



text \<open>The conversion loop \<^verbatim>\<open>try: intline.append(int(i)) except ValueError: intline.append(i)\<close>.\<close>

definition to_pyval :: "string \<Rightarrow> pyval" where
  "to_pyval i = (case py_int i of Some n \<Rightarrow> PInt n | None \<Rightarrow> PStr i)"

definition intline :: "string list \<Rightarrow> pyval list" where
  "intline line = map to_pyval line"

section \<open>\<^verbatim>\<open>textparser.TextParser\<close>\<close>

record TextParser =
  fix_subvols :: bool
  ignore_ext_backup :: bool

text \<open>The snapshot filter and the backup filter, as both parsers apply them to a field.\<close>

definition subvol_excluded :: "TextParser \<Rightarrow> string \<Rightarrow> bool" where
  "subvol_excluded self f \<longleftrightarrow>
     fix_subvols self \<and> contains ''snapshot'' f \<and> str_count ''subvolume'' f > 0"

definition backup_excluded :: "TextParser \<Rightarrow> string \<Rightarrow> bool" where
  "backup_excluded self f \<longleftrightarrow> ignore_ext_backup self \<and> contains ''ext2_saved'' f"

subsection \<open>\<^verbatim>\<open>parse_fls_files\<close>\<close>

text \<open>
  The path kept for a line: \<^verbatim>\<open>line[1][1:end]\<close> with \<^verbatim>\<open>end = line[1].find(' -> ')\<close>
  for a symbolic link, \<^verbatim>\<open>line[1][1:]\<close> otherwise.
\<close>

definition fls_path :: "string list \<Rightarrow> string" where
  "fls_path line =
     (if hd (line ! 3) = CHR ''l''
      then slice (line ! 1) 1 (str_find '' -> '' (line ! 1))
      else drop 1 (line ! 1))"

text \<open>
  One pass of the loop body on a split line: \<open>Inl\<close> is the exception raised,
  \<open>Inr None\<close> a line that appends nothing, \<open>Inr (Some (path, inode))\<close> the entry
  appended.
\<close>

definition fls_line :: "TextParser \<Rightarrow> string list \<Rightarrow> py_error + (string \<times> int) option" where
  "fls_line self line =
     (if length line > 1 then
        (if length (line ! 1) < 2 then Inl IndexError
         else if line ! 1 ! 1 = CHR ''$'' then Inr None
         else if subvol_excluded self (line ! 1) then Inr None
         else if backup_excluded self (line ! 1) then Inr None
         else if length line < 4 then Inl IndexError
         else if line ! 3 = [] then Inl IndexError
         else
           (case py_int (line ! 2) of
              None \<Rightarrow> Inl ValueError
            | Some n \<Rightarrow> Inr (Some (fls_path line, n))))
      else Inr None)"

fun fls_loop :: "TextParser \<Rightarrow> string list list \<Rightarrow> (string \<times> int) list
    \<Rightarrow> py_error + (string \<times> int) list" where
  "fls_loop self [] files = Inr files"
| "fls_loop self (line # rest) files =
     (case fls_line self line of
        Inl e \<Rightarrow> Inl e
      | Inr None \<Rightarrow> fls_loop self rest files
      | Inr (Some f) \<Rightarrow> fls_loop self rest (files @ [f]))"

text \<open>The lines of the text, each split at the pipe: what the three loops iterate over.\<close>

definition field_lines :: "string \<Rightarrow> string list list" where
  "field_lines data = map (split_chr CHR ''|'') (splitlines data)"

definition parse_fls_files :: "TextParser \<Rightarrow> string \<Rightarrow> py_error + (string \<times> int) list" where
  "parse_fls_files self data = fls_loop self (field_lines data) []"

text \<open>The entries one line contributes: none when it is skipped or raises.\<close>

definition fls_entry :: "TextParser \<Rightarrow> string list \<Rightarrow> (string \<times> int) list" where
  "fls_entry self line = (case fls_line self line of Inr (Some f) \<Rightarrow> [f] | _ \<Rightarrow> [])"

subsection \<open>\<^verbatim>\<open>parse_ils\<close>\<close>




subsection \<open>\<^verbatim>\<open>os.path\<close> (posixpath)\<close>

text \<open>
  \<^verbatim>\<open>parse_stat\<close> and \<^verbatim>\<open>test_filedata\<close> call \<^verbatim>\<open>os.path.relpath\<close>, which
  resolves relative paths against the working directory of the process; \<open>cwd\<close> is that
  directory (the value of \<^verbatim>\<open>os.getcwd()\<close>).
\<close>

fun str_join :: "string \<Rightarrow> string list \<Rightarrow> string" where
  "str_join sep [] = []"
| "str_join sep [x] = x"
| "str_join sep (x # y # ys) = x @ sep @ str_join sep (y # ys)"

definition isabs :: "string \<Rightarrow> bool" where
  "isabs p = prefix ''/'' p"

definition path_join :: "string \<Rightarrow> string \<Rightarrow> string" where
  "path_join a b =
     (if prefix ''/'' b then b
      else if a = [] \<or> last a = CHR ''/'' then a @ b
      else a @ ''/'' @ b)"

definition initial_slashes :: "string \<Rightarrow> nat" where
  "initial_slashes p =
     (if prefix ''/'' p then (if prefix ''//'' p \<and> \<not> prefix ''///'' p then 2 else 1) else 0)"

text \<open>The component loop of \<^verbatim>\<open>normpath\<close>; \<open>rooted\<close> says that the path starts with a slash.\<close>

fun norm_comps :: "bool \<Rightarrow> string list \<Rightarrow> string list \<Rightarrow> string list" where
  "norm_comps rooted [] new_comps = new_comps"
| "norm_comps rooted (c # comps) new_comps =
     (if c = [] \<or> c = ''.'' then norm_comps rooted comps new_comps
      else if c \<noteq> ''..'' \<or> (\<not> rooted \<and> new_comps = [])
              \<or> (new_comps \<noteq> [] \<and> last new_comps = ''..'')
        then norm_comps rooted comps (new_comps @ [c])
      else if new_comps \<noteq> [] then norm_comps rooted comps (butlast new_comps)
      else norm_comps rooted comps new_comps)"

definition normpath :: "string \<Rightarrow> string" where
  "normpath path =
     (if path = [] then ''.''
      else
        (let n = initial_slashes path;
             comps = norm_comps (n \<noteq> 0) (split_chr CHR ''/'' path) [];
             p = replicate n CHR ''/'' @ str_join ''/'' comps
         in if p = [] then ''.'' else p))"

definition abspath :: "string \<Rightarrow> string \<Rightarrow> string" where
  "abspath cwd path = normpath (if isabs path then path else path_join cwd path)"

fun commonprefix :: "'a list \<Rightarrow> 'a list \<Rightarrow> 'a list" where
  "commonprefix (x # xs) (y # ys) = (if x = y then x # commonprefix xs ys else [])"
| "commonprefix _ _ = []"

definition path_parts :: "string \<Rightarrow> string list" where
  "path_parts p = filter (\<lambda>x. x \<noteq> []) (split_chr CHR ''/'' p)"

definition relpath :: "string \<Rightarrow> string \<Rightarrow> string \<Rightarrow> py_error + string" where
  "relpath cwd path start =
     (if path = [] then Inl ValueError
      else
        (let start_list = path_parts (abspath cwd start);
             path_list = path_parts (abspath cwd path);
             i = length (commonprefix start_list path_list);
             rel_list = replicate (length start_list - i) ''..'' @ drop i path_list
         in if rel_list = [] then Inr ''.'' else Inr (str_join ''/'' rel_list)))"

subsection \<open>\<^verbatim>\<open>parse_stat\<close>\<close>

text \<open>The first loop on a split line: \<open>None\<close> for a line a filter drops.\<close>

definition stat_line :: "TextParser \<Rightarrow> string list \<Rightarrow> pyval list option" where
  "stat_line self line =
     (if subvol_excluded self (line ! 0) then None
      else if backup_excluded self (line ! 0) then None
      else Some (intline line))"

text \<open>
  The second loop, \<^verbatim>\<open>line[0] = os.path.relpath(line[0], mpath)\<close>. A path field that the
  conversion turned into an integer makes \<^verbatim>\<open>relpath\<close> raise: its first test,
  \<^verbatim>\<open>if not path\<close>, gives \<^verbatim>\<open>ValueError\<close> for the integer 0, and \<^verbatim>\<open>os.fspath\<close>
  gives \<^verbatim>\<open>TypeError\<close> for every other integer.
\<close>

definition stat_rel :: "string \<Rightarrow> string \<Rightarrow> pyval list \<Rightarrow> py_error + pyval list" where
  "stat_rel cwd mpath line =
     (case line of
        [] \<Rightarrow> Inl IndexError
      | PInt n # rest \<Rightarrow> (if n = 0 then Inl ValueError else Inl TypeError)
      | PStr p # rest \<Rightarrow>
          (case relpath cwd p mpath of Inl e \<Rightarrow> Inl e | Inr r \<Rightarrow> Inr (PStr r # rest)))"

fun stat_rel_loop :: "string \<Rightarrow> string \<Rightarrow> pyval list list \<Rightarrow> py_error + pyval list list" where
  "stat_rel_loop cwd mpath [] = Inr []"
| "stat_rel_loop cwd mpath (line # rest) =
     (case stat_rel cwd mpath line of
        Inl e \<Rightarrow> Inl e
      | Inr l \<Rightarrow> (case stat_rel_loop cwd mpath rest of Inl e \<Rightarrow> Inl e | Inr ls \<Rightarrow> Inr (l # ls)))"

definition parse_stat :: "TextParser \<Rightarrow> string \<Rightarrow> string \<Rightarrow> string option
    \<Rightarrow> py_error + pyval list list" where
  "parse_stat self cwd data mpath =
     (let inodes = List.map_filter (stat_line self) (field_lines data)
      in case mpath of None \<Rightarrow> Inr inodes | Some mp \<Rightarrow> stat_rel_loop cwd mp inodes)"

section \<open>\<^verbatim>\<open>test_btrfs.TestBtrfs\<close>\<close>

text \<open>
  The class attributes \<^verbatim>\<open>ignore_ext_backup\<close> and \<^verbatim>\<open>fix_subvols\<close> are the values
  the parser is built from (\<^verbatim>\<open>TextParser(ignore_ext_backup, fix_subvols)\<close>); the model
  reads them from \<open>parser\<close>. The class-level sets \<^verbatim>\<open>tsk\<close> and \<^verbatim>\<open>stat\<close> hold
  tuples, modelled as \<^typ>\<open>pyval list\<close>; a loop over a set is a loop over the list of its
  elements in the order the iteration yields them.
\<close>

record TestBtrfs =
  parser :: TextParser
  fix_size :: bool
  rec_dir :: string

text \<open>\<^verbatim>\<open>for x in xs: s.add(f(x))\<close>, where \<open>f\<close> may raise.\<close>

fun add_all :: "('a \<Rightarrow> py_error + 'b) \<Rightarrow> 'a list \<Rightarrow> 'b set \<Rightarrow> py_error + 'b set" where
  "add_all f [] s = Inr s"
| "add_all f (x # xs) s =
     (case f x of Inl e \<Rightarrow> Inl e | Inr y \<Rightarrow> add_all f xs (insert y s))"

subsection \<open>The merge step of \<^verbatim>\<open>setUpClassCustom\<close>\<close>

text \<open>
  \<^verbatim>\<open>line.extend(tsk_inodes[line[1]]); self.tsk.add(tuple(line))\<close>: the subscript raises
  \<^verbatim>\<open>KeyError\<close> with the key when the inode is not in the dictionary.
\<close>

definition merge_entry :: "(pyval \<rightharpoonup> pyval list) \<Rightarrow> string \<times> int \<Rightarrow> py_error + pyval list" where
  "merge_entry tsk_inodes line =
     (case tsk_inodes (PInt (snd line)) of
        None \<Rightarrow> Inl (KeyError (PInt (snd line)))
      | Some attrs \<Rightarrow> Inr ([PStr (fst line), PInt (snd line)] @ attrs))"

definition merge :: "(string \<times> int) list \<Rightarrow> (pyval \<rightharpoonup> pyval list) \<Rightarrow> pyval list set
    \<Rightarrow> py_error + pyval list set" where
  "merge tsk_files tsk_inodes tsk = add_all (merge_entry tsk_inodes) tsk_files tsk"

subsection \<open>\<^verbatim>\<open>test_metadata_inode\<close>\<close>








subsection \<open>\<^verbatim>\<open>test_metadata_size\<close>\<close>

definition size_tsk_entry :: "pyval list \<Rightarrow> py_error + pyval \<times> pyval" where
  "size_tsk_entry line = (if length line < 12 then Inl IndexError else Inr (line ! 0, line ! 11))"

text \<open>\<^verbatim>\<open>line[0].split('/')[-1]\<close> and the three substring tests on it.\<close>

definition pseudo_entry :: "string \<Rightarrow> bool" where
  "pseudo_entry p =
     (let last_part = last (split_chr CHR ''/'' p)
      in contains ''directory'' last_part \<or> contains ''subvolume'' last_part
         \<or> contains ''snapshot'' last_part)"

definition size_stat_entry :: "TestBtrfs \<Rightarrow> pyval list \<Rightarrow> py_error + pyval \<times> pyval" where
  "size_stat_entry self line =
     (if length line < 12 then Inl IndexError
      else if fix_size self then
        (case line ! 0 of
           PInt n \<Rightarrow> Inl AttributeError
         | PStr p \<Rightarrow> Inr (line ! 0, if pseudo_entry p then PInt 0 else line ! 11))
      else Inr (line ! 0, line ! 11))"

definition test_metadata_size :: "TestBtrfs \<Rightarrow> pyval list list \<Rightarrow> pyval list list
    \<Rightarrow> py_error + bool" where
  "test_metadata_size self tsk stat =
     (case add_all size_tsk_entry tsk {} of
        Inl e \<Rightarrow> Inl e
      | Inr t \<Rightarrow>
          (case add_all (size_stat_entry self) stat {} of
             Inl e \<Rightarrow> Inl e
           | Inr s \<Rightarrow> Inr (s = t)))"

subsection \<open>\<^verbatim>\<open>test_filedata\<close>\<close>

text \<open>
  The lines \<^verbatim>\<open>readline()\<close> returns for a file opened in text mode: each ends with
  \<^verbatim>\<open>\n\<close> (which also stands for \<^verbatim>\<open>\r\<close> and \<^verbatim>\<open>\r\n\<close>), except a last line
  without a line end.
\<close>

fun readlines_from :: "string \<Rightarrow> string \<Rightarrow> string list" where
  "readlines_from cur [] = (if cur = [] then [] else [cur])"
| "readlines_from cur (c # cs) =
     (if of_char c = (13::nat) \<and> cs \<noteq> [] \<and> of_char (hd cs) = (10::nat)
        then (cur @ [CHR 0x0A]) # readlines_from [] (tl cs)
      else if of_char c = (10::nat) \<or> of_char c = (13::nat)
        then (cur @ [CHR 0x0A]) # readlines_from [] cs
      else readlines_from (cur @ [c]) cs)"

definition readlines :: "string \<Rightarrow> string list" where
  "readlines text = readlines_from [] text"

text \<open>
  The \<^verbatim>\<open>while line != "" and line[0] != '-'\<close> loop: \<^verbatim>\<open>line[0:-1]\<close> drops the last
  character, the fields are split at single spaces, the first is the hash and the
  others, joined by spaces again, the name.
\<close>

fun manifest_loop :: "string list \<Rightarrow> (string \<times> string) set \<Rightarrow> (string \<times> string) set" where
  "manifest_loop [] stat = stat"
| "manifest_loop (line # rest) stat =
     (if line = [] \<or> hd line = CHR ''-'' then stat
      else
        (let fields = split_chr CHR '' '' (slice line 0 (- 1));
             fname = str_join '' '' (tl fields)
         in manifest_loop rest (insert (fname, hd fields) stat)))"

text \<open>
  The body of the walk for one file name \<open>f\<close> of the directory \<open>root\<close>. \<open>md5sum\<close>
  gives the digest of a file, \<open>None\<close> when reading it fails.
\<close>

definition filedata_entry :: "TestBtrfs \<Rightarrow> string \<Rightarrow> (string \<rightharpoonup> string) \<Rightarrow> string \<Rightarrow> string
    \<Rightarrow> py_error + (string \<times> string) option" where
  "filedata_entry self cwd md5sum root f =
     (if f = [] then Inl IndexError
      else if hd f \<noteq> CHR ''$'' then
        (let fpath = path_join root f
         in if subvol_excluded (parser self) fpath then Inr None
            else if backup_excluded (parser self) fpath then Inr None
            else (case md5sum fpath of
                    None \<Rightarrow> Inl ImageCreationError
                  | Some h \<Rightarrow>
                      (case relpath cwd fpath (rec_dir self) of
                         Inl e \<Rightarrow> Inl e
                       | Inr rp \<Rightarrow> Inr (Some (rp, h)))))
      else Inr None)"

fun filedata_files :: "TestBtrfs \<Rightarrow> string \<Rightarrow> (string \<rightharpoonup> string) \<Rightarrow> string \<Rightarrow> string list
    \<Rightarrow> (string \<times> string) set \<Rightarrow> py_error + (string \<times> string) set" where
  "filedata_files self cwd md5sum root [] tsk = Inr tsk"
| "filedata_files self cwd md5sum root (f # fs) tsk =
     (case filedata_entry self cwd md5sum root f of
        Inl e \<Rightarrow> Inl e
      | Inr None \<Rightarrow> filedata_files self cwd md5sum root fs tsk
      | Inr (Some x) \<Rightarrow> filedata_files self cwd md5sum root fs (insert x tsk))"

text \<open>\<open>walk\<close> is what \<^verbatim>\<open>os.walk(self.rec_dir)\<close> yields: each directory with its file names.\<close>

fun filedata_walk :: "TestBtrfs \<Rightarrow> string \<Rightarrow> (string \<rightharpoonup> string) \<Rightarrow> (string \<times> string list) list
    \<Rightarrow> (string \<times> string) set \<Rightarrow> py_error + (string \<times> string) set" where
  "filedata_walk self cwd md5sum [] tsk = Inr tsk"
| "filedata_walk self cwd md5sum ((root, files) # rest) tsk =
     (case filedata_files self cwd md5sum root files tsk of
        Inl e \<Rightarrow> Inl e
      | Inr tsk' \<Rightarrow> filedata_walk self cwd md5sum rest tsk')"

definition test_filedata :: "TestBtrfs \<Rightarrow> string \<Rightarrow> (string \<rightharpoonup> string) \<Rightarrow> string
    \<Rightarrow> (string \<times> string list) list \<Rightarrow> py_error + bool" where
  "test_filedata self cwd md5sum manifest walk =
     (let stat = manifest_loop (readlines manifest) {}
      in case filedata_walk self cwd md5sum walk {} of
           Inl e \<Rightarrow> Inl e
         | Inr tsk \<Rightarrow> Inr (stat = tsk))"

section \<open>Conditions named in the statements\<close>

text \<open>
  The definitions of this section are not functions of the source: they name the
  conditions under which its loops append an entry, for use in the statements below.
\<close>




definition stat_keeps :: "TextParser \<Rightarrow> string list \<Rightarrow> bool" where
  "stat_keeps self line \<longleftrightarrow>
     \<not> subvol_excluded self (line ! 0) \<and> \<not> backup_excluded self (line ! 0)"



text \<open>
  The words of the specification for the size override: the final path component is
  what follows the last slash, and it is tagged when it contains \<open>directory\<close>,
  \<open>subvolume\<close> or \<open>snapshot\<close>.
\<close>

definition final_component :: "string \<Rightarrow> string" where
  "final_component p = rev (takeWhile (\<lambda>c. c \<noteq> CHR ''/'') (rev p))"

definition pseudo_tag :: "string \<Rightarrow> bool" where
  "pseudo_tag name \<longleftrightarrow>
     sublist ''directory'' name \<or> sublist ''subvolume'' name \<or> sublist ''snapshot'' name"

definition pseudo_tagged :: "pyval \<Rightarrow> bool" where
  "pseudo_tagged v = (case v of PStr p \<Rightarrow> pseudo_tag (final_component p) | PInt n \<Rightarrow> False)"

text \<open>An example tuple of twelve fields with the given path and size.\<close>

definition example_tuple :: "string \<Rightarrow> int \<Rightarrow> pyval list" where
  "example_tuple p n =
     [PStr p, PInt 257, PStr ''a'', PInt 0, PInt 0, PInt 1, PInt 2, PInt 3, PInt 4, PInt 755,
      PInt 1, PInt n]"

section \<open>Properties of \<^verbatim>\<open>parse_fls_files\<close>\<close>

lemma slice_one_hd:
  assumes "2 \<le> length s"
  shows "slice s 1 j = [] \<or> hd (slice s 1 j) = s ! 1"
proof (cases "slice_index (length s) j - 1")
  case 0
  then show ?thesis using assms by (simp add: slice_def slice_index_def)
next
  case (Suc k)
  have "drop 1 s \<noteq> []" using assms by simp
  then have "hd (take (Suc k) (drop 1 s)) = hd (drop 1 s)"
    by (cases "drop 1 s") simp_all
  moreover have "hd (drop 1 s) = s ! 1"
    using assms by (simp add: hd_drop_conv_nth)
  ultimately show ?thesis using assms Suc by (simp add: slice_def slice_index_def)
qed

lemma fls_line_path:
  assumes "fls_line self line = Inr (Some (p, n))"
  shows "\<not> prefix ''$'' p"
proof -
  from assms have len: "2 \<le> length (line ! 1)" and nd: "line ! 1 ! 1 \<noteq> CHR ''$''"
    by (auto simp: fls_line_def Let_def split: if_splits option.splits)
  from assms consider j where "p = slice (line ! 1) 1 j" | "p = drop 1 (line ! 1)"
    by (auto simp: fls_line_def fls_path_def split: if_splits option.splits)
  then show ?thesis
  proof cases
    case 1
    with slice_one_hd[OF len, of j] nd show ?thesis
      by (cases p) (auto simp: prefix_def)
  next
    case 2
    with len nd show ?thesis
      by (cases "line ! 1") (auto simp: prefix_def)
  qed
qed

lemma fls_loop_Inr:
  "fls_loop self ls acc = Inr files \<Longrightarrow>
     files = acc @ concat (map (fls_entry self) ls) \<and> (\<forall>l\<in>set ls. \<exists>r. fls_line self l = Inr r)"
proof (induction ls arbitrary: acc)
  case Nil
  then show ?case by simp
next
  case (Cons l ls)
  show ?case
  proof (cases "fls_line self l")
    case (Inl e)
    with Cons.prems show ?thesis by simp
  next
    case (Inr r)
    show ?thesis
    proof (cases r)
      case None
      with Inr Cons.prems Cons.IH[of acc] show ?thesis by (simp add: fls_entry_def)
    next
      case (Some f)
      with Inr Cons.prems Cons.IH[of "acc @ [f]"] show ?thesis by (simp add: fls_entry_def)
    qed
  qed
qed

lemma fls_loop_Inl:
  "l \<in> set ls \<Longrightarrow> fls_line self l = Inl e \<Longrightarrow> \<exists>e'. fls_loop self ls acc = Inl e'"
  by (induction ls arbitrary: acc) (auto split: sum.splits option.splits)

text \<open>
  C1. No path that \<^verbatim>\<open>parse_fls_files\<close> returns begins with the metadata marker
  \<open>$\<close>, and a line whose second field has \<open>$\<close> right after the type tag appends
  nothing.
\<close>

theorem parse_fls_files_skips_metadata:
  "(parse_fls_files self data = Inr files \<longrightarrow> (\<forall>(p, n) \<in> set files. \<not> prefix ''$'' p)) \<and>
   (1 < length line \<and> prefix ''$'' (drop 1 (line ! 1)) \<longrightarrow> fls_line self line = Inr None)"
proof (intro conjI impI)
  assume "parse_fls_files self data = Inr files"
  then have "files = concat (map (fls_entry self) (field_lines data))"
    using fls_loop_Inr[of self "field_lines data" "[]" files] by (simp add: parse_fls_files_def)
  then show "\<forall>(p, n) \<in> set files. \<not> prefix ''$'' p"
    by (auto simp: fls_entry_def split: sum.splits option.splits dest: fls_line_path[OF sym])
next
  assume a: "1 < length line \<and> prefix ''$'' (drop 1 (line ! 1))"
  then obtain r where "drop 1 (line ! 1) = CHR ''$'' # r" by (auto simp: prefix_def)
  then have "2 \<le> length (line ! 1)" "line ! 1 ! 1 = CHR ''$''"
    by (cases "line ! 1"; simp)+
  with a show "fls_line self line = Inr None" by (simp add: fls_line_def)
qed

theorem parse_fls_files_skips_metadata_witness:
  "parse_fls_files \<lparr>fix_subvols = True, ignore_ext_backup = True\<rparr>
      ''0|/a|257|r/rrwxr-xr-x|0\<newline>0|/$OrphanFiles|3|d/d|0'' = Inr [(''a'', 257)] \<and>
   \<not> prefix ''$'' ''a'' \<and>
   1 < length [''0'', ''/$OrphanFiles'', ''3''] \<and>
   prefix ''$'' (drop 1 ([''0'', ''/$OrphanFiles'', ''3''] ! 1)) \<and>
   fls_line \<lparr>fix_subvols = True, ignore_ext_backup = True\<rparr> [''0'', ''/$OrphanFiles'', ''3'']
     = Inr None"
proof -
  have e: "parse_fls_files \<lparr>fix_subvols = True, ignore_ext_backup = True\<rparr>
      ''0|/a|257|r/rrwxr-xr-x|0\<newline>0|/$OrphanFiles|3|d/d|0'' = Inr [(''a'', 257)]"
    by code_simp
  have h: "1 < length [''0'', ''/$OrphanFiles'', ''3''] \<and>
      prefix ''$'' (drop 1 ([''0'', ''/$OrphanFiles'', ''3''] ! 1))"
    by simp
  show ?thesis
    using e h parse_fls_files_skips_metadata[of "\<lparr>fix_subvols = True, ignore_ext_backup = True\<rparr>"
      "''0|/a|257|r/rrwxr-xr-x|0\<newline>0|/$OrphanFiles|3|d/d|0''" "[(''a'', 257)]"
      "[''0'', ''/$OrphanFiles'', ''3'']"]
    by simp
qed

lemma find_from_absent: "\<not> contains p s \<Longrightarrow> find_from i p s = - 1"
  by (induction s arbitrary: i) auto

lemma slice_one_minus_one: "slice s 1 (- 1) = butlast (tl s)"
proof (cases s)
  case Nil
  then show ?thesis by (simp add: slice_def slice_index_def)
next
  case (Cons a t)
  then show ?thesis by (simp add: slice_def slice_index_def butlast_conv_take)
qed

lemma fls_line_error: "fls_line self line = Inl e \<Longrightarrow> e = IndexError \<or> e = ValueError"
  by (auto simp: fls_line_def Let_def split: if_splits option.splits)

lemma fls_loop_error: "fls_loop self ls acc = Inl e \<Longrightarrow> e = IndexError \<or> e = ValueError"
  by (induction ls arbitrary: acc) (auto split: sum.splits option.splits dest: fls_line_error)

text \<open>
  C10. A line whose fourth field starts with \<open>l\<close> and whose path field has no
  \<open>" -> "\<close> passes \<open>-1\<close> as the end of the slice: the path returned is the field
  without its first and without its last character.
\<close>

theorem symlink_without_arrow_loses_last_char:
  assumes "parse_fls_files self data = Inr files"
    and "line \<in> set (field_lines data)"
    and "1 < length line"
    and "\<not> prefix ''$'' (drop 1 (line ! 1))"
    and "\<not> subvol_excluded self (line ! 1)"
    and "\<not> backup_excluded self (line ! 1)"
    and "prefix ''l'' (line ! 3)"
    and "\<not> contains '' -> '' (line ! 1)"
  shows "\<exists>n. py_int (line ! 2) = Some n \<and> (butlast (tl (line ! 1)), n) \<in> set files"
proof -
  from assms(1) have fs: "files = concat (map (fls_entry self) (field_lines data))"
    and ok: "\<forall>l\<in>set (field_lines data). \<exists>r. fls_line self l = Inr r"
    using fls_loop_Inr[of self "field_lines data" "[]" files] by (simp_all add: parse_fls_files_def)
  from ok assms(2) obtain r where r: "fls_line self line = Inr r" by blast
  have len: "2 \<le> length (line ! 1)"
    using r assms(3) by (auto simp: fls_line_def split: if_splits)
  then have nd: "line ! 1 ! 1 \<noteq> CHR ''$''"
    using assms(4) by (cases "line ! 1"; cases "tl (line ! 1)") (auto)
  have l3: "hd (line ! 3) = CHR ''l''" using assms(7) by (auto simp: prefix_def)
  have fnd: "str_find '' -> '' (line ! 1) = - 1"
    using assms(8) by (simp add: str_find_def find_from_absent)
  from r assms(3,5,6) len nd l3 fnd obtain n where
    n: "py_int (line ! 2) = Some n" and "r = Some (slice (line ! 1) 1 (- 1), n)"
    by (auto simp: fls_line_def fls_path_def split: if_splits option.splits)
  with r have "fls_entry self line = [(butlast (tl (line ! 1)), n)]"
    by (simp add: fls_entry_def slice_one_minus_one)
  then have "(butlast (tl (line ! 1)), n) \<in> set (fls_entry self line)" by simp
  with fs assms(2) have "(butlast (tl (line ! 1)), n) \<in> set files" by auto
  with n show ?thesis by blast
qed

text \<open>
  C7. A line with at least two fields that no filter removes and whose third field is
  missing or no integer literal makes \<^verbatim>\<open>parse_fls_files\<close> raise: the line is not
  skipped, and the exception (\<^verbatim>\<open>ValueError\<close> from \<^verbatim>\<open>int\<close>, or
  \<^verbatim>\<open>IndexError\<close> for a short line) leaves the function.
\<close>

theorem bad_inode_field_raises:
  assumes "line \<in> set (field_lines data)"
    and "1 < length line"
    and "\<not> prefix ''$'' (drop 1 (line ! 1))"
    and "\<not> subvol_excluded self (line ! 1)"
    and "\<not> backup_excluded self (line ! 1)"
    and "length line < 3 \<or> py_int (line ! 2) = None"
  shows "(fls_line self line = Inl IndexError \<or> fls_line self line = Inl ValueError) \<and>
         (parse_fls_files self data = Inl IndexError \<or> parse_fls_files self data = Inl ValueError)"
proof -
  have nd: "2 \<le> length (line ! 1) \<Longrightarrow> line ! 1 ! 1 \<noteq> CHR ''$''"
    using assms(3) by (cases "line ! 1"; cases "tl (line ! 1)") auto
  have "\<exists>e. fls_line self line = Inl e"
    using assms(2,4,5,6) nd by (auto simp: fls_line_def Let_def split: option.splits)
  then obtain e where e: "fls_line self line = Inl e" by blast
  from fls_loop_Inl[OF assms(1) e] obtain e' where e': "parse_fls_files self data = Inl e'"
    by (auto simp: parse_fls_files_def)
  from e fls_line_error have "e = IndexError \<or> e = ValueError" by blast
  moreover from e' fls_loop_error have "e' = IndexError \<or> e' = ValueError"
    by (auto simp: parse_fls_files_def)
  ultimately show ?thesis using e e' by auto
qed


theorem symlink_without_arrow_loses_last_char_witness:
  "parse_fls_files \<lparr>fix_subvols = True, ignore_ext_backup = True\<rparr>
     ''0|/lnk|258|l/lrwxrwxrwx|0'' = Inr [(''ln'', 258)] \<and>
   [''0'', ''/lnk'', ''258'', ''l/lrwxrwxrwx'', ''0''] \<in> set (field_lines ''0|/lnk|258|l/lrwxrwxrwx|0'') \<and>
   prefix ''l'' ([''0'', ''/lnk'', ''258'', ''l/lrwxrwxrwx'', ''0''] ! 3) \<and>
   \<not> contains '' -> '' ([''0'', ''/lnk'', ''258'', ''l/lrwxrwxrwx'', ''0''] ! 1) \<and>
   (\<exists>n. py_int ([''0'', ''/lnk'', ''258'', ''l/lrwxrwxrwx'', ''0''] ! 2) = Some n \<and>
        (butlast (tl ([''0'', ''/lnk'', ''258'', ''l/lrwxrwxrwx'', ''0''] ! 1)), n)
          \<in> set [(''ln'', 258)])"
proof -
  let ?self = "\<lparr>fix_subvols = True, ignore_ext_backup = True\<rparr>"
  let ?data = "''0|/lnk|258|l/lrwxrwxrwx|0''"
  let ?line = "[''0'', ''/lnk'', ''258'', ''l/lrwxrwxrwx'', ''0'']"
  have h1: "parse_fls_files ?self ?data = Inr [(''ln'', 258)]" by code_simp
  have h2: "?line \<in> set (field_lines ?data)" by code_simp
  have h3: "1 < length ?line" by simp
  have h4: "\<not> prefix ''$'' (drop 1 (?line ! 1))" by simp
  have h5: "\<not> subvol_excluded ?self (?line ! 1)" by code_simp
  have h6: "\<not> backup_excluded ?self (?line ! 1)" by code_simp
  have h7: "prefix ''l'' (?line ! 3)" by simp
  have h8: "\<not> contains '' -> '' (?line ! 1)" by code_simp
  from symlink_without_arrow_loses_last_char[OF h1 h2 h3 h4 h5 h6 h7 h8] h1 h2 h7 h8
  show ?thesis by blast
qed

theorem bad_inode_field_raises_witness:
  "[''0'', ''/a'', ''x57'', ''r/rrwxr-xr-x'', ''0''] \<in> set (field_lines ''0|/a|x57|r/rrwxr-xr-x|0'') \<and>
   py_int ([''0'', ''/a'', ''x57'', ''r/rrwxr-xr-x'', ''0''] ! 2) = None \<and>
   fls_line \<lparr>fix_subvols = True, ignore_ext_backup = True\<rparr>
     [''0'', ''/a'', ''x57'', ''r/rrwxr-xr-x'', ''0''] = Inl ValueError \<and>
   parse_fls_files \<lparr>fix_subvols = True, ignore_ext_backup = True\<rparr>
     ''0|/a|x57|r/rrwxr-xr-x|0'' = Inl ValueError"
proof -
  let ?self = "\<lparr>fix_subvols = True, ignore_ext_backup = True\<rparr>"
  let ?data = "''0|/a|x57|r/rrwxr-xr-x|0''"
  let ?line = "[''0'', ''/a'', ''x57'', ''r/rrwxr-xr-x'', ''0'']"
  have h1: "?line \<in> set (field_lines ?data)" by code_simp
  have h2: "1 < length ?line" by simp
  have h3: "\<not> prefix ''$'' (drop 1 (?line ! 1))" by simp
  have h4: "\<not> subvol_excluded ?self (?line ! 1)" by code_simp
  have h5: "\<not> backup_excluded ?self (?line ! 1)" by code_simp
  have h6: "py_int (?line ! 2) = None" by code_simp
  then have h6': "length ?line < 3 \<or> py_int (?line ! 2) = None" by blast
  have n1: "fls_line ?self ?line \<noteq> Inl IndexError" by code_simp
  have n2: "parse_fls_files ?self ?data \<noteq> Inl IndexError" by code_simp
  from bad_inode_field_raises[OF h1 h2 h3 h4 h5 h6'] h1 h6 n1 n2
  show ?thesis by blast
qed

section \<open>Properties of \<^verbatim>\<open>parse_ils\<close>\<close>






section \<open>Properties of the tests in \<^verbatim>\<open>test_btrfs.py\<close>\<close>

lemma add_all_Inr:
  "add_all f xs s = Inr r \<Longrightarrow>
     (\<forall>x\<in>set xs. \<exists>y. f x = Inr y) \<and> r = s \<union> {y. \<exists>x\<in>set xs. f x = Inr y}"
proof (induction xs arbitrary: s)
  case Nil
  then show ?case by simp
next
  case (Cons x xs)
  then obtain y where y: "f x = Inr y" and rest: "add_all f xs (insert y s) = Inr r"
    by (auto split: sum.splits)
  from Cons.IH[OF rest] y show ?case by auto
qed

lemma add_all_first_error:
  "\<forall>x\<in>set pre. \<exists>y. f x = Inr y \<Longrightarrow> f x = Inl e \<Longrightarrow> add_all f (pre @ x # post) s = Inl e"
  by (induction pre arbitrary: s) auto

lemma add_all_error:
  "x \<in> set xs \<Longrightarrow> f x = Inl e \<Longrightarrow> \<exists>e'. add_all f xs s = Inl e'"
  by (induction xs arbitrary: s) (auto split: sum.splits)

lemma add_all_image:
  assumes "add_all f xs {} = Inr r" and "\<And>x y. f x = Inr y \<Longrightarrow> y = g x"
  shows "r = g ` set xs"
proof -
  from add_all_Inr[OF assms(1)] have all: "\<forall>x\<in>set xs. \<exists>y. f x = Inr y"
    and r: "r = {y. \<exists>x\<in>set xs. f x = Inr y}" by auto
  show ?thesis
  proof (intro equalityI subsetI)
    fix y assume "y \<in> r"
    with r obtain x where "x \<in> set xs" "f x = Inr y" by blast
    with assms(2) show "y \<in> g ` set xs" by blast
  next
    fix y assume "y \<in> g ` set xs"
    then obtain x where x: "x \<in> set xs" "y = g x" by blast
    with all obtain y' where "f x = Inr y'" by blast
    with assms(2) x r show "y \<in> r" by blast
  qed
qed

text \<open>
  C4 as stated does not hold: the \<^verbatim>\<open>KeyError\<close> of the merge step carries the missing
  inode and nothing else. The entries \<^verbatim>\<open>["a", 77]\<close> and \<^verbatim>\<open>["b", 77]\<close> raise the
  same exception, so its message does not name the path.
\<close>

theorem merge_missing_inode_counterexample:
  "merge [(''a'', 77)] Map.empty {} = Inl (KeyError (PInt 77)) \<and>
   merge [(''b'', 77)] Map.empty {} = Inl (KeyError (PInt 77))"
  by (simp add: merge_def merge_entry_def)

text \<open>
  C4, amended. The first file-listing entry whose inode is no key of the inode-listing
  dictionary makes the merge step raise \<^verbatim>\<open>KeyError\<close> with that inode: the entry is
  not dropped, and the message names the inode only.
\<close>

theorem merge_missing_inode_raises:
  assumes "tsk_inodes (PInt ino) = None"
    and "\<forall>e\<in>set pre. tsk_inodes (PInt (snd e)) \<noteq> None"
  shows "merge (pre @ (path, ino) # post) tsk_inodes tsk = Inl (KeyError (PInt ino))"
proof -
  have "merge_entry tsk_inodes (path, ino) = Inl (KeyError (PInt ino))"
    using assms(1) by (simp add: merge_entry_def)
  moreover have "\<forall>x\<in>set pre. \<exists>y. merge_entry tsk_inodes x = Inr y"
    using assms(2) by (auto simp: merge_entry_def split: option.splits)
  ultimately show ?thesis
    unfolding merge_def by (rule add_all_first_error[rotated])
qed

theorem merge_missing_inode_raises_witness:
  "[PInt 5 \<mapsto> [PInt 0]] (PInt 77) = None \<and>
   merge ([(''x'', 5)] @ (''a'', 77) # [(''y'', 5)]) [PInt 5 \<mapsto> [PInt 0]] {}
     = Inl (KeyError (PInt 77))"
proof -
  have h1: "[PInt 5 \<mapsto> [PInt 0]] (PInt 77) = None" by simp
  have h2: "\<forall>e\<in>set [(''x'', 5::int)]. [PInt 5 \<mapsto> [PInt 0]] (PInt (snd e)) \<noteq> None" by simp
  from merge_missing_inode_raises[OF h1 h2, of "''a''" "[(''y'', 5)]" "{}"] h1
  show ?thesis by blast
qed


lemma add_all_total:
  "\<forall>x\<in>set xs. \<exists>y. f x = Inr y \<Longrightarrow> \<exists>r. add_all f xs s = Inr r"
  by (induction xs arbitrary: s) auto



section \<open>The lines the filters keep\<close>


lemma stat_lines_filter:
  "List.map_filter (stat_line self) ls = map intline (filter (stat_keeps self) ls)"
  by (induction ls) (auto simp: List.map_filter_simps stat_line_def stat_keeps_def)

section \<open>Substrings and paths\<close>

lemma sublist_trans: "sublist a b \<Longrightarrow> sublist b c \<Longrightarrow> sublist a c"
proof -
  assume "sublist a b" "sublist b c"
  then obtain ps ss ps' ss' where "b = ps @ a @ ss" "c = ps' @ b @ ss'"
    by (auto simp: sublist_def)
  then have "c = (ps' @ ps) @ a @ (ss @ ss')" by simp
  then show ?thesis unfolding sublist_def by blast
qed

lemma contains_sublist: "contains p s \<longleftrightarrow> sublist p s"
  by (induction s) (auto simp: sublist_Cons_right)

lemma str_count_pos: "p \<noteq> [] \<Longrightarrow> 0 < str_count p s \<longleftrightarrow> sublist p s"
proof (induction p s rule: str_count.induct)
  case (1 p s)
  show ?case
  proof (cases s)
    case Nil
    with "1.prems" show ?thesis by (subst str_count.simps) simp
  next
    case (Cons c cs)
    show ?thesis
    proof (cases "prefix p s")
      case True
      with "1.prems" Cons show ?thesis by (subst str_count.simps) auto
    next
      case False
      with "1.prems" Cons "1.IH"(2) have "0 < str_count p (tl s) \<longleftrightarrow> sublist p (tl s)" by simp
      moreover have "str_count p s = str_count p (tl s)"
        using "1.prems" Cons False by (subst str_count.simps) simp
      ultimately show ?thesis using False Cons by (simp add: sublist_Cons_right)
    qed
  qed
qed

lemma sublist_sep:
  assumes "sublist q (x @ CHR ''/'' # r)" and "CHR ''/'' \<notin> set q"
  shows "sublist q x \<or> sublist q r"
proof -
  from assms(1) consider "sublist q x" | "sublist q (CHR ''/'' # r)"
    | q1 q2 where "q = q1 @ q2" "suffix q1 x" "prefix q2 (CHR ''/'' # r)"
    by (auto simp: sublist_append)
  then show ?thesis
  proof cases
    case 1
    then show ?thesis by simp
  next
    case 2
    then have "prefix q (CHR ''/'' # r) \<or> sublist q r" by (simp add: sublist_Cons_right)
    then show ?thesis using assms(2) by (cases q) auto
  next
    case 3
    with assms(2) have "q2 = []" by (cases q2) auto
    with 3 show ?thesis by auto
  qed
qed

lemma sublist_slashes:
  "sublist q (replicate n CHR ''/'' @ r) \<Longrightarrow> CHR ''/'' \<notin> set q \<Longrightarrow> q \<noteq> [] \<Longrightarrow> sublist q r"
proof (induction n)
  case 0
  then show ?case by simp
next
  case (Suc n)
  from Suc.prems(1) have "prefix q (CHR ''/'' # replicate n CHR ''/'' @ r)
      \<or> sublist q (replicate n CHR ''/'' @ r)"
    by (simp add: sublist_Cons_right)
  then show ?case using Suc by (cases q) auto
qed

lemma sublist_str_join:
  "sublist q (str_join ''/'' xs) \<Longrightarrow> CHR ''/'' \<notin> set q \<Longrightarrow> q \<noteq> [] \<Longrightarrow> \<exists>x\<in>set xs. sublist q x"
proof (induction "''/''" xs rule: str_join.induct)
  case 1
  then show ?case by simp
next
  case (2 x)
  then show ?case by simp
next
  case (3 x y ys)
  from "3.prems"(1) have "sublist q (x @ CHR ''/'' # str_join ''/'' (y # ys))" by simp
  from sublist_sep[OF this "3.prems"(2)] "3.hyps" "3.prems"(2,3) show ?case by auto
qed

lemma split_chr_nonempty: "split_chr d s \<noteq> []"
  by (cases s) (simp_all split: list.splits)

lemma split_chr_hd_prefix: "split_chr d s = w # ws \<Longrightarrow> prefix w s"
  by (induction s arbitrary: w ws) (auto split: if_splits list.splits)

lemma split_chr_sublist: "x \<in> set (split_chr d s) \<Longrightarrow> sublist x s"
proof (induction s arbitrary: x)
  case Nil
  then show ?case by simp
next
  case (Cons c cs)
  show ?case
  proof (cases "c = d")
    case True
    with Cons show ?thesis by (auto simp: sublist_Cons_right)
  next
    case False
    obtain w ws where w: "split_chr d cs = w # ws"
      using split_chr_nonempty[of d cs] by (cases "split_chr d cs") simp_all
    with False Cons.prems have "x = c # w \<or> x \<in> set ws" by simp
    then show ?thesis
    proof
      assume "x = c # w"
      with split_chr_hd_prefix[OF w] show ?thesis by auto
    next
      assume "x \<in> set ws"
      with w Cons.IH[of x] show ?thesis by (simp add: sublist_Cons_right)
    qed
  qed
qed

lemma norm_comps_subset: "set (norm_comps rooted comps new) \<subseteq> set comps \<union> set new"
proof (induction rooted comps new rule: norm_comps.induct)
  case (1 rooted new_comps)
  then show ?case by simp
next
  case (2 rooted c comps new_comps)
  have b: "set (butlast new_comps) \<subseteq> set new_comps" by (auto dest: in_set_butlastD)
  show ?case
  proof (cases "c = [] \<or> c = ''.''")
    case True
    with 2 show ?thesis by auto
  next
    case skip: False
    show ?thesis
    proof (cases "c \<noteq> ''..'' \<or> (\<not> rooted \<and> new_comps = [])
        \<or> (new_comps \<noteq> [] \<and> last new_comps = ''..'')")
      case True
      with skip "2.IH"(2) have "set (norm_comps rooted (c # comps) new_comps)
          \<subseteq> set comps \<union> set (new_comps @ [c])" by simp
      then show ?thesis by auto
    next
      case app: False
      show ?thesis
      proof (cases "new_comps \<noteq> []")
        case True
        with skip app "2.IH"(3) have "set (norm_comps rooted (c # comps) new_comps)
            \<subseteq> set comps \<union> set (butlast new_comps)" by simp
        with b show ?thesis by auto
      next
        case False
        with skip app "2.IH"(4) have "set (norm_comps rooted (c # comps) new_comps)
            \<subseteq> set comps \<union> set new_comps" by simp
        then show ?thesis by auto
      qed
    qed
  qed
qed

text \<open>A word that lies inside one path component and is neither \<open>.\<close> nor \<open>..\<close>.\<close>

lemma normpath_sublist:
  assumes "sublist q (normpath p)" and "CHR ''/'' \<notin> set q" and "\<not> sublist q ''..''"
  shows "sublist q p"
proof -
  have q: "q \<noteq> []" using assms(3) by auto
  have nd: "\<not> sublist q ''.''" using assms(3) by (auto simp: sublist_Cons_right)
  let ?comps = "norm_comps (initial_slashes p \<noteq> 0) (split_chr CHR ''/'' p) []"
  from assms(1) nd have "sublist q (replicate (initial_slashes p) CHR ''/'' @ str_join ''/'' ?comps)"
    by (auto simp: normpath_def Let_def split: if_splits)
  from sublist_slashes[OF this assms(2) q] have "sublist q (str_join ''/'' ?comps)" .
  from sublist_str_join[OF this assms(2) q] obtain x where "x \<in> set ?comps" "sublist q x" by blast
  moreover from this norm_comps_subset have "x \<in> set (split_chr CHR ''/'' p)" by fastforce
  ultimately show ?thesis using split_chr_sublist sublist_trans by blast
qed

lemma path_join_sublist:
  assumes "sublist q (path_join a b)" and "CHR ''/'' \<notin> set q"
  shows "sublist q a \<or> sublist q b"
proof (cases "prefix ''/'' b \<or> a = []")
  case True
  with assms show ?thesis by (auto simp: path_join_def split: if_splits)
next
  case False
  show ?thesis
  proof (cases "last a = CHR ''/''")
    case True
    with False obtain a' where a: "a = a' @ ''/''"
      by (metis append_butlast_last_id)
    with assms(1) False True have "sublist q (a' @ CHR ''/'' # b)"
      by (simp add: path_join_def)
    from sublist_sep[OF this assms(2)] have "sublist q a' \<or> sublist q b" .
    moreover have "sublist a' a" using a by simp
    ultimately show ?thesis using sublist_trans by blast
  next
    case nl: False
    with assms(1) False have "sublist q (a @ CHR ''/'' # b)" by (simp add: path_join_def)
    from sublist_sep[OF this assms(2)] show ?thesis .
  qed
qed

lemma relpath_sublist:
  assumes "relpath cwd path start = Inr r" and "sublist q r"
    and "CHR ''/'' \<notin> set q" and "\<not> sublist q ''..''"
  shows "sublist q path \<or> (\<not> isabs path \<and> sublist q cwd)"
proof -
  have q: "q \<noteq> []" using assms(4) by auto
  have nd: "\<not> sublist q ''.''" using assms(4) by (auto simp: sublist_Cons_right)
  let ?sl = "path_parts (abspath cwd start)"
  let ?pl = "path_parts (abspath cwd path)"
  let ?i = "length (commonprefix ?sl ?pl)"
  let ?rel = "replicate (length ?sl - ?i) ''..'' @ drop ?i ?pl"
  from assms(1,2) nd have "sublist q (str_join ''/'' ?rel)"
    by (auto simp: relpath_def Let_def split: if_splits)
  from sublist_str_join[OF this assms(3) q] obtain x where x: "x \<in> set ?rel" "sublist q x" by blast
  have "x \<noteq> ''..''" using x(2) assms(4) by blast
  with x(1) have "x \<in> set (drop ?i ?pl)" by simp
  then have "x \<in> set (split_chr CHR ''/'' (abspath cwd path))"
    by (auto simp: path_parts_def dest: in_set_dropD)
  with x(2) have ab: "sublist q (abspath cwd path)"
    using split_chr_sublist sublist_trans by blast
  show ?thesis
  proof (cases "isabs path")
    case True
    with ab normpath_sublist[OF _ assms(3,4)] show ?thesis by (simp add: abspath_def)
  next
    case False
    with ab normpath_sublist[OF _ assms(3,4)] have "sublist q (path_join cwd path)"
      by (simp add: abspath_def)
    from path_join_sublist[OF this assms(3)] False show ?thesis by blast
  qed
qed

section \<open>Properties of \<^verbatim>\<open>parse_stat\<close>\<close>

lemma to_pyval_PStr: "to_pyval s = PStr p \<Longrightarrow> p = s"
  by (auto simp: to_pyval_def split: option.splits)

lemma stat_rel_loop_set:
  "stat_rel_loop cwd m ls = Inr out \<Longrightarrow> t \<in> set out \<Longrightarrow> \<exists>l\<in>set ls. stat_rel cwd m l = Inr t"
  by (induction ls arbitrary: out) (auto split: sum.splits)

lemma field_lines_nonempty: "l \<in> set (field_lines data) \<Longrightarrow> l \<noteq> []"
  by (auto simp: field_lines_def split_chr_nonempty)

lemma kept_path_not_both:
  assumes "fix_subvols self" and "stat_keeps self l"
  shows "\<not> (sublist ''snapshot'' (l ! 0) \<and> sublist ''subvolume'' (l ! 0))"
proof -
  have "0 < str_count ''subvolume'' (l ! 0) \<longleftrightarrow> sublist ''subvolume'' (l ! 0)"
    by (rule str_count_pos) simp
  with assms show ?thesis
    by (simp add: stat_keeps_def subvol_excluded_def contains_sublist)
qed

lemma path_words:
  "CHR ''/'' \<notin> set ''snapshot''" "\<not> sublist ''snapshot'' ''..''"
  "CHR ''/'' \<notin> set ''subvolume''" "\<not> sublist ''subvolume'' ''..''"
  by (simp_all add: sublist_code prefix_code)

text \<open>
  C2 as stated does not hold. The filter reads the raw path field, and
  \<^verbatim>\<open>os.path.relpath\<close> resolves a relative path against the working directory: with
  the working directory \<open>/snapshot/subvolume\<close> the raw path \<open>a\<close> passes the filter
  and comes back as \<open>../../snapshot/subvolume/a\<close>.
\<close>

theorem parse_stat_snapshot_counterexample:
  "parse_stat \<lparr>fix_subvols = True, ignore_ext_backup = True\<rparr> ''/snapshot/subvolume'' ''a|1''
     (Some ''/mnt/loop'') = Inr [[PStr ''../../snapshot/subvolume/a'', PInt 1]] \<and>
   contains ''snapshot'' ''../../snapshot/subvolume/a'' \<and>
   contains ''subvolume'' ''../../snapshot/subvolume/a''"
  by code_simp

text \<open>
  C2, amended. With \<^verbatim>\<open>fix_subvols\<close> set, no tuple that \<^verbatim>\<open>parse_stat\<close> returns has
  a path containing both \<open>snapshot\<close> and \<open>subvolume\<close>, provided that no mount path is
  given, or every raw path field is absolute, or the working directory contains neither
  word.
\<close>

theorem parse_stat_excludes_snapshot_subvolume:
  assumes "fix_subvols self"
    and "parse_stat self cwd data mp = Inr out"
    and "t \<in> set out"
    and "t ! 0 = PStr p"
    and "mp = None \<or> (\<forall>l\<in>set (field_lines data). isabs (l ! 0))
         \<or> (\<not> contains ''snapshot'' cwd \<and> \<not> contains ''subvolume'' cwd)"
  shows "\<not> (contains ''snapshot'' p \<and> contains ''subvolume'' p)"
proof (cases mp)
  case None
  with assms(2) have "out = map intline (filter (stat_keeps self) (field_lines data))"
    by (simp add: parse_stat_def stat_lines_filter)
  with assms(3) obtain l where l: "l \<in> set (field_lines data)" "stat_keeps self l" "t = intline l"
    by auto
  from l(1) have "l \<noteq> []" by (rule field_lines_nonempty)
  with l(3) assms(4) have "to_pyval (l ! 0) = PStr p" by (cases l) (simp_all add: intline_def)
  then have "p = l ! 0" by (rule to_pyval_PStr)
  with kept_path_not_both[OF assms(1) l(2)] show ?thesis by (simp add: contains_sublist)
next
  case (Some m)
  with assms(2) have "stat_rel_loop cwd m (map intline (filter (stat_keeps self) (field_lines data)))
      = Inr out"
    by (simp add: parse_stat_def stat_lines_filter)
  from stat_rel_loop_set[OF this assms(3)] obtain l where
    l: "l \<in> set (field_lines data)" "stat_keeps self l" "stat_rel cwd m (intline l) = Inr t"
    by auto
  from l(1) have ne: "l \<noteq> []" by (rule field_lines_nonempty)
  from l(3) assms(4) obtain p0 where p0: "hd (intline l) = PStr p0" "relpath cwd p0 m = Inr p"
    by (auto simp: stat_rel_def split: list.splits pyval.splits sum.splits if_splits)
  from p0(1) ne have "to_pyval (l ! 0) = PStr p0" by (cases l) (simp_all add: intline_def)
  then have p0l: "p0 = l ! 0" by (rule to_pyval_PStr)
  show ?thesis
  proof
    assume both: "contains ''snapshot'' p \<and> contains ''subvolume'' p"
    then have s1: "sublist ''snapshot'' p" and s2: "sublist ''subvolume'' p"
      by (simp_all add: contains_sublist)
    from relpath_sublist[OF p0(2) s1 path_words(1,2)]
    have r1: "sublist ''snapshot'' p0 \<or> (\<not> isabs p0 \<and> sublist ''snapshot'' cwd)" .
    from relpath_sublist[OF p0(2) s2 path_words(3,4)]
    have r2: "sublist ''subvolume'' p0 \<or> (\<not> isabs p0 \<and> sublist ''subvolume'' cwd)" .
    from assms(5) Some l(1) p0l
    have "isabs p0 \<or> (\<not> sublist ''snapshot'' cwd \<and> \<not> sublist ''subvolume'' cwd)"
      by (auto simp: contains_sublist)
    with r1 r2 have "sublist ''snapshot'' (l ! 0) \<and> sublist ''subvolume'' (l ! 0)"
      using p0l by blast
    with kept_path_not_both[OF assms(1) l(2)] show False by blast
  qed
qed

theorem parse_stat_excludes_snapshot_subvolume_witness:
  "parse_stat \<lparr>fix_subvols = True, ignore_ext_backup = True\<rparr> ''/home/user''
     ''/mnt/loop/snapshot1/subvolume1/f|5\<newline>/mnt/loop/subvolume1/f|6'' (Some ''/mnt/loop'')
       = Inr [[PStr ''subvolume1/f'', PInt 6]] \<and>
   [PStr ''subvolume1/f'', PInt 6] \<in> set [[PStr ''subvolume1/f'', PInt 6]] \<and>
   [PStr ''subvolume1/f'', PInt 6] ! 0 = PStr ''subvolume1/f'' \<and>
   isabs ''/mnt/loop/snapshot1/subvolume1/f'' \<and> isabs ''/mnt/loop/subvolume1/f'' \<and>
   \<not> (contains ''snapshot'' ''subvolume1/f'' \<and> contains ''subvolume'' ''subvolume1/f'')"
proof -
  let ?self = "\<lparr>fix_subvols = True, ignore_ext_backup = True\<rparr>"
  let ?data = "''/mnt/loop/snapshot1/subvolume1/f|5\<newline>/mnt/loop/subvolume1/f|6''"
  have h1: "fix_subvols ?self" by simp
  have h2: "parse_stat ?self ''/home/user'' ?data (Some ''/mnt/loop'')
      = Inr [[PStr ''subvolume1/f'', PInt 6]]"
    by code_simp
  have h3: "[PStr ''subvolume1/f'', PInt 6] \<in> set [[PStr ''subvolume1/f'', PInt 6]]" by simp
  have h4: "[PStr ''subvolume1/f'', PInt 6] ! 0 = PStr ''subvolume1/f''" by simp
  have fl: "field_lines ?data = [[''/mnt/loop/snapshot1/subvolume1/f'', ''5''],
      [''/mnt/loop/subvolume1/f'', ''6'']]"
    by code_simp
  have ab: "isabs ''/mnt/loop/snapshot1/subvolume1/f'' \<and> isabs ''/mnt/loop/subvolume1/f''"
    by (simp add: isabs_def)
  then have h5: "Some ''/mnt/loop'' = None \<or> (\<forall>l\<in>set (field_lines ?data). isabs (l ! 0))
      \<or> (\<not> contains ''snapshot'' ''/home/user'' \<and> \<not> contains ''subvolume'' ''/home/user'')"
    by (simp add: fl)
  from parse_stat_excludes_snapshot_subvolume[OF h1 h2 h3 h4 h5] h2 h3 h4 ab
  show ?thesis by blast
qed

section \<open>The relative path of a file below a directory\<close>

lemma split_chr_append:
  "split_chr d (a @ d # b) = split_chr d a @ split_chr d b"
proof (induction a)
  case Nil
  then show ?case by simp
next
  case (Cons c a)
  obtain w ws where "split_chr d a = w # ws"
    using split_chr_nonempty[of d a] by (cases "split_chr d a") simp_all
  with Cons show ?case by simp
qed

lemma split_chr_no_sep: "d \<notin> set s \<Longrightarrow> split_chr d s = [s]"
  by (induction s) auto

lemma split_chr_free: "x \<in> set (split_chr d s) \<Longrightarrow> d \<notin> set x"
proof (induction s arbitrary: x)
  case Nil
  then show ?case by simp
next
  case (Cons c cs)
  obtain w ws where w: "split_chr d cs = w # ws"
    using split_chr_nonempty[of d cs] by (cases "split_chr d cs") simp_all
  with Cons.IH have "d \<notin> set w" "\<And>y. y \<in> set ws \<Longrightarrow> d \<notin> set y" by auto
  with Cons.prems w show ?case by (auto split: if_splits)
qed

lemma split_chr_str_join:
  "xs \<noteq> [] \<Longrightarrow> \<forall>x\<in>set xs. CHR ''/'' \<notin> set x \<Longrightarrow> split_chr CHR ''/'' (str_join ''/'' xs) = xs"
proof (induction "''/''" xs rule: str_join.induct)
  case 1
  then show ?case by simp
next
  case (2 x)
  then show ?case by (simp add: split_chr_no_sep)
next
  case (3 x y ys)
  have "split_chr CHR ''/'' (x @ CHR ''/'' # str_join ''/'' (y # ys))
      = split_chr CHR ''/'' x @ split_chr CHR ''/'' (str_join ''/'' (y # ys))"
    by (rule split_chr_append)
  with 3 show ?case by (simp add: split_chr_no_sep)
qed

lemma split_chr_slashes:
  "split_chr CHR ''/'' (replicate n CHR ''/'' @ s) = replicate n [] @ split_chr CHR ''/'' s"
  by (induction n) simp_all

lemma norm_comps_append:
  "norm_comps r (xs @ ys) new = norm_comps r ys (norm_comps r xs new)"
proof (induction r xs new rule: norm_comps.induct)
  case (1 rooted new_comps)
  then show ?case by simp
next
  case (2 rooted c comps new_comps)
  show ?case
  proof (cases "c = [] \<or> c = ''.''")
    case True
    with "2.IH"(1) show ?thesis by simp
  next
    case skip: False
    show ?thesis
    proof (cases "c \<noteq> ''..'' \<or> (\<not> rooted \<and> new_comps = [])
        \<or> (new_comps \<noteq> [] \<and> last new_comps = ''..'')")
      case True
      with skip "2.IH"(2) show ?thesis by simp
    next
      case app: False
      show ?thesis
      proof (cases "new_comps \<noteq> []")
        case True
        with skip app "2.IH"(3) show ?thesis by simp
      next
        case False
        with skip app "2.IH"(4) show ?thesis by simp
      qed
    qed
  qed
qed

lemma norm_comps_nonempty: "[] \<notin> set new \<Longrightarrow> [] \<notin> set (norm_comps r comps new)"
proof (induction r comps new rule: norm_comps.induct)
  case (1 rooted new_comps)
  then show ?case by simp
next
  case (2 rooted c comps new_comps)
  have b: "[] \<notin> set (butlast new_comps)"
    using "2.prems" in_set_butlastD by fastforce
  show ?case
  proof (cases "c = [] \<or> c = ''.''")
    case True
    with "2.IH"(1) "2.prems" show ?thesis by simp
  next
    case skip: False
    show ?thesis
    proof (cases "c \<noteq> ''..'' \<or> (\<not> rooted \<and> new_comps = [])
        \<or> (new_comps \<noteq> [] \<and> last new_comps = ''..'')")
      case True
      from skip "2.prems" have "[] \<notin> set (new_comps @ [c])" by auto
      with "2.IH"(2)[OF skip True] have "[] \<notin> set (norm_comps rooted comps (new_comps @ [c]))" .
      with skip True show ?thesis by simp
    next
      case app: False
      show ?thesis
      proof (cases "new_comps \<noteq> []")
        case True
        from "2.IH"(3)[OF skip app True b]
        have "[] \<notin> set (norm_comps rooted comps (butlast new_comps))" .
        with skip app True show ?thesis by simp
      next
        case False
        from "2.IH"(4)[OF skip app False "2.prems"]
        have "[] \<notin> set (norm_comps rooted comps new_comps)" .
        with skip app False show ?thesis by simp
      qed
    qed
  qed
qed

lemma norm_comps_clean:
  assumes "x \<in> set (norm_comps r comps [])" and "\<forall>y\<in>set comps. CHR ''/'' \<notin> set y"
  shows "x \<noteq> [] \<and> CHR ''/'' \<notin> set x"
proof -
  have "[] \<notin> set (norm_comps r comps [])"
    by (rule norm_comps_nonempty) simp
  moreover from assms(1) norm_comps_subset have "x \<in> set comps" by fastforce
  ultimately show ?thesis using assms by metis
qed

lemma norm_comps_plain:
  "\<forall>x\<in>set tail. x \<noteq> [] \<and> x \<noteq> ''.'' \<and> x \<noteq> ''..'' \<Longrightarrow> norm_comps r tail new = new @ tail"
  by (induction tail arbitrary: new) simp_all

lemma commonprefix_append: "commonprefix xs (xs @ ys) = xs"
  by (induction xs) simp_all

lemma str_join_nonempty: "x \<in> set xs \<Longrightarrow> x \<noteq> [] \<Longrightarrow> str_join sep xs \<noteq> []"
  by (induction sep xs rule: str_join.induct) auto

lemma initial_slashes_append:
  "d \<noteq> [] \<Longrightarrow> hd d \<noteq> CHR ''/'' \<Longrightarrow> initial_slashes (X @ d @ r) = initial_slashes (X @ d)"
proof -
  assume "d \<noteq> []" "hd d \<noteq> CHR ''/''"
  then obtain c d' where d: "d = c # d'" "c \<noteq> CHR ''/''" by (cases d) auto
  show ?thesis
  proof (cases X)
    case Nil
    with d show ?thesis by (simp add: initial_slashes_def)
  next
    case X1: (Cons x1 X')
    show ?thesis
    proof (cases X')
      case Nil
      with d X1 show ?thesis by (simp add: initial_slashes_def)
    next
      case X2: (Cons x2 X'')
      show ?thesis
      proof (cases X'')
        case Nil
        with d X1 X2 show ?thesis by (simp add: initial_slashes_def)
      next
        case (Cons x3 X''')
        with d X1 X2 show ?thesis by (simp add: initial_slashes_def)
      qed
    qed
  qed
qed

lemma parts_normpath:
  assumes sp: "split_chr CHR ''/'' p = C @ tail"
    and C: "\<forall>x\<in>set C. CHR ''/'' \<notin> set x"
    and tail: "\<forall>x\<in>set tail. x \<noteq> [] \<and> CHR ''/'' \<notin> set x \<and> x \<noteq> ''.'' \<and> x \<noteq> ''..''"
    and ne: "tail \<noteq> []"
  shows "path_parts (normpath p) = norm_comps (initial_slashes p \<noteq> 0) C [] @ tail"
proof -
  let ?r = "initial_slashes p \<noteq> 0"
  let ?N = "norm_comps ?r C []"
  have p: "p \<noteq> []"
  proof
    assume "p = []"
    with sp have "C @ tail = [[]]" by simp
    with ne have "tail = [[]]" by (cases C) (auto simp: Cons_eq_append_conv)
    with tail show False by simp
  qed
  have comps: "norm_comps ?r (split_chr CHR ''/'' p) [] = ?N @ tail"
    using tail by (simp add: sp norm_comps_append norm_comps_plain)
  have clean: "\<forall>x\<in>set (?N @ tail). x \<noteq> [] \<and> CHR ''/'' \<notin> set x"
    using norm_comps_clean[OF _ C] tail by auto
  from ne obtain t where "t \<in> set tail" by (cases tail) auto
  with tail have "str_join ''/'' (?N @ tail) \<noteq> []"
    by (intro str_join_nonempty[of t]) auto
  with p comps have np: "normpath p
      = replicate (initial_slashes p) CHR ''/'' @ str_join ''/'' (?N @ tail)"
    by (simp add: normpath_def Let_def)
  have "?N @ tail \<noteq> []" using ne by simp
  with clean have "split_chr CHR ''/'' (str_join ''/'' (?N @ tail)) = ?N @ tail"
    by (intro split_chr_str_join) auto
  then have "split_chr CHR ''/'' (normpath p) = replicate (initial_slashes p) [] @ ?N @ tail"
    by (simp add: np split_chr_slashes)
  moreover have "filter (\<lambda>x. x \<noteq> []) (?N @ tail) = ?N @ tail"
    using clean by (intro filter_True) auto
  ultimately show ?thesis by (simp add: path_parts_def)
qed

lemma relpath_child:
  assumes d: "d \<noteq> []" "CHR ''/'' \<notin> set d" "d \<noteq> ''.''" "d \<noteq> ''..''"
    and f: "f \<noteq> []" "CHR ''/'' \<notin> set f" "f \<noteq> ''.''" "f \<noteq> ''..''"
  shows "relpath cwd (path_join d f) d = Inr f"
proof -
  from d have hd: "hd d \<noteq> CHR ''/''" by (cases d) auto
  from d have ld: "last d \<noteq> CHR ''/''" using last_in_set by metis
  from f have hf: "\<not> prefix ''/'' f" by (cases f) auto
  have pj: "path_join d f = d @ CHR ''/'' # f"
    using d(1) ld hf by (simp add: path_join_def)
  have nabs: "\<not> isabs d" "\<not> isabs (d @ CHR ''/'' # f)"
    using d(1) hd by (cases d; simp add: isabs_def)+
  define X where "X = (if cwd = [] \<or> last cwd = CHR ''/'' then cwd else cwd @ ''/'')"
  have ab: "abspath cwd d = normpath (X @ d)"
    "abspath cwd (d @ CHR ''/'' # f) = normpath (X @ d @ CHR ''/'' # f)"
    using nabs by (simp_all add: abspath_def path_join_def isabs_def X_def)
  obtain C where C: "\<forall>x\<in>set C. CHR ''/'' \<notin> set x"
    and sp: "\<And>b. split_chr CHR ''/'' (X @ b) = C @ split_chr CHR ''/'' b"
  proof (cases "X = []")
    case True
    show ?thesis by (rule that[of "[]"]) (simp_all add: True)
  next
    case False
    then have "last X = CHR ''/''" by (auto simp: X_def split: if_splits)
    with False obtain Y where Y: "X = Y @ ''/''" by (metis append_butlast_last_id)
    show ?thesis
    proof (rule that[of "split_chr CHR ''/'' Y"])
      show "\<forall>x\<in>set (split_chr CHR ''/'' Y). CHR ''/'' \<notin> set x"
        using split_chr_free by blast
      show "\<And>b. split_chr CHR ''/'' (X @ b) = split_chr CHR ''/'' Y @ split_chr CHR ''/'' b"
        using split_chr_append[of "CHR ''/''" Y] by (simp add: Y)
    qed
  qed
  have s1: "split_chr CHR ''/'' (X @ d) = C @ [d]"
    using d(2) by (simp add: sp split_chr_no_sep)
  have "split_chr CHR ''/'' (d @ CHR ''/'' # f) = [d, f]"
    using d(2) f(2) by (simp add: split_chr_append split_chr_no_sep)
  then have s2: "split_chr CHR ''/'' (X @ d @ CHR ''/'' # f) = C @ [d, f]"
    by (simp add: sp)
  have sl: "initial_slashes (X @ d @ CHR ''/'' # f) = initial_slashes (X @ d)"
    by (rule initial_slashes_append[OF d(1) hd])
  define N where "N = norm_comps (initial_slashes (X @ d) \<noteq> 0) C []"
  have p1: "path_parts (abspath cwd d) = N @ [d]"
    unfolding ab N_def by (rule parts_normpath[OF s1 C]) (use d in simp_all)
  have p2: "path_parts (abspath cwd (d @ CHR ''/'' # f)) = N @ [d, f]"
    unfolding ab N_def using parts_normpath[OF s2 C] d f sl by simp
  have cp: "commonprefix (N @ [d]) (N @ [d, f]) = N @ [d]"
    using commonprefix_append[of "N @ [d]" "[f]"] by simp
  have "relpath cwd (d @ CHR ''/'' # f) d = Inr f"
    by (simp add: relpath_def p1 p2 cp Let_def)
  then show ?thesis by (simp add: pj)
qed

section \<open>Properties of \<^verbatim>\<open>test_filedata\<close>\<close>

lemma readlines_from_started:
  "cur \<noteq> [] \<Longrightarrow> \<exists>l ls. readlines_from cur s = l # ls \<and> hd l = hd cur"
proof (induction s arbitrary: cur)
  case Nil
  then show ?case by simp
next
  case (Cons c cs)
  from Cons.prems have "hd (cur @ [c]) = hd cur" "hd (cur @ [CHR 0x0A]) = hd cur" by simp_all
  with Cons.IH[of "cur @ [c]"] show ?case by auto
qed

lemma manifest_loop_sentinel:
  "manifest_loop (readlines_from [] (CHR ''-'' # rest)) stat = stat"
proof -
  have "readlines_from [] (CHR ''-'' # rest) = readlines_from ''-'' rest" by simp
  with readlines_from_started[of "''-''" rest] obtain l ls where
    "readlines_from [] (CHR ''-'' # rest) = l # ls" "hd l = CHR ''-''" by auto
  then show ?thesis by simp
qed

text \<open>
  C6 as stated does not hold. The manifest loop splits a line at single spaces and
  joins the fields after the first: with two spaces between hash and name the name
  read is \<open>" empty_file"\<close>, with a space in front, and the recovered tree yields
  \<open>"empty_file"\<close>. The two sets differ and the assertion fails.
\<close>

theorem test_filedata_two_spaces_counterexample:
  "test_filedata
     \<lparr>parser = \<lparr>fix_subvols = True, ignore_ext_backup = True\<rparr>, fix_size = True,
      rec_dir = ''.files''\<rparr>
     ''/home/user''
     [''.files/empty_file'' \<mapsto> ''d41d8cd98f00b204e9800998ecf8427e'']
     ''d41d8cd98f00b204e9800998ecf8427e  empty_file\<newline>--------------------------------\<newline>''
     [(''.files'', [''empty_file''])] = Inr False \<and>
   manifest_loop (readlines
     ''d41d8cd98f00b204e9800998ecf8427e  empty_file\<newline>--------------------------------\<newline>'') {}
     = {('' empty_file'', ''d41d8cd98f00b204e9800998ecf8427e'')}"
  by code_simp


lemma readlines_from_line:
  "\<forall>c\<in>set a. of_char c \<noteq> (10::nat) \<and> of_char c \<noteq> (13::nat) \<Longrightarrow>
   readlines_from cur (a @ CHR 0x0A # s) = (cur @ a @ [CHR 0x0A]) # readlines_from [] s"
  by (induction a arbitrary: cur) simp_all

text \<open>
  C6, amended. With one space between hash and name, the format the image factory
  writes, the scenario passes: for the manifest line
  \<open>"d41d8cd98f00b204e9800998ecf8427e empty_file"\<close> before the \<open>-\<close> sentinel and a
  recovered tree \<open>.files\<close> whose only file is \<open>empty_file\<close> with that digest, the
  set read from the manifest equals the set built from the tree.
\<close>

theorem manifest_round_trip:
  assumes "rec_dir self = ''.files''"
    and "md5sum ''.files/empty_file'' = Some ''d41d8cd98f00b204e9800998ecf8427e''"
  shows "test_filedata self cwd md5sum
           (''d41d8cd98f00b204e9800998ecf8427e empty_file'' @ CHR 0x0A # CHR ''-'' # rest)
           [(''.files'', [''empty_file''])] = Inr True"
proof -
  let ?h = "''d41d8cd98f00b204e9800998ecf8427e''"
  let ?line = "''d41d8cd98f00b204e9800998ecf8427e empty_file''"
  have "readlines (?line @ CHR 0x0A # CHR ''-'' # rest)
      = (?line @ [CHR 0x0A]) # readlines_from [] (CHR ''-'' # rest)"
    unfolding readlines_def using readlines_from_line[of ?line "[]" "CHR ''-'' # rest"] by simp
  moreover have "slice (?line @ [CHR 0x0A]) 0 (- 1) = ?line"
    by (simp add: slice_def slice_index_def)
  moreover have "split_chr CHR '' '' ?line = [?h, ''empty_file'']" by simp
  ultimately have "manifest_loop (readlines (?line @ CHR 0x0A # CHR ''-'' # rest)) {}
      = manifest_loop (readlines_from [] (CHR ''-'' # rest)) {(''empty_file'', ?h)}"
    by (simp add: Let_def)
  then have stat: "manifest_loop (readlines (?line @ CHR 0x0A # CHR ''-'' # rest)) {}
      = {(''empty_file'', ?h)}"
    by (simp only: manifest_loop_sentinel)
  have pj: "path_join ''.files'' ''empty_file'' = ''.files/empty_file''"
    by (simp add: path_join_def)
  have nf: "\<not> subvol_excluded (parser self) ''.files/empty_file''"
    "\<not> backup_excluded (parser self) ''.files/empty_file''"
    by (simp_all add: subvol_excluded_def backup_excluded_def prefix_code)
  have "relpath cwd (path_join ''.files'' ''empty_file'') ''.files'' = Inr ''empty_file''"
    by (rule relpath_child) simp_all
  with pj have rp: "relpath cwd ''.files/empty_file'' ''.files'' = Inr ''empty_file''" by simp
  have "filedata_entry self cwd md5sum ''.files'' ''empty_file'' = Inr (Some (''empty_file'', ?h))"
    unfolding filedata_entry_def pj Let_def using nf assms rp by simp
  then have "filedata_walk self cwd md5sum [(''.files'', [''empty_file''])] {}
      = Inr {(''empty_file'', ?h)}"
    by simp
  with stat show ?thesis unfolding test_filedata_def Let_def by simp
qed

theorem manifest_round_trip_witness:
  "rec_dir \<lparr>parser = \<lparr>fix_subvols = True, ignore_ext_backup = True\<rparr>, fix_size = True,
      rec_dir = ''.files''\<rparr> = ''.files'' \<and>
   [''.files/empty_file'' \<mapsto> ''d41d8cd98f00b204e9800998ecf8427e''] ''.files/empty_file''
     = Some ''d41d8cd98f00b204e9800998ecf8427e'' \<and>
   test_filedata
     \<lparr>parser = \<lparr>fix_subvols = True, ignore_ext_backup = True\<rparr>, fix_size = True,
      rec_dir = ''.files''\<rparr>
     ''/home/user''
     [''.files/empty_file'' \<mapsto> ''d41d8cd98f00b204e9800998ecf8427e'']
     (''d41d8cd98f00b204e9800998ecf8427e empty_file'' @ CHR 0x0A # CHR ''-''
        # ''-------------------------------'')
     [(''.files'', [''empty_file''])] = Inr True"
proof -
  let ?self = "\<lparr>parser = \<lparr>fix_subvols = True, ignore_ext_backup = True\<rparr>, fix_size = True,
      rec_dir = ''.files''\<rparr>"
  let ?md5 = "[''.files/empty_file'' \<mapsto> ''d41d8cd98f00b204e9800998ecf8427e'']"
  have h1: "rec_dir ?self = ''.files''" by simp
  have h2: "?md5 ''.files/empty_file'' = Some ''d41d8cd98f00b204e9800998ecf8427e''" by simp
  from manifest_round_trip[where self = ?self and md5sum = ?md5 and cwd = "''/home/user''"
      and rest = "''-------------------------------''", OF h1 h2] h1 h2
  show ?thesis by blast
qed

section \<open>Duplicate paths\<close>












section \<open>The size override\<close>

lemma split_chr_single: "split_chr d s = [w] \<longleftrightarrow> d \<notin> set s \<and> w = s"
proof (induction s arbitrary: w)
  case Nil
  then show ?case by auto
next
  case (Cons c cs)
  obtain v vs where v: "split_chr d cs = v # vs"
    using split_chr_nonempty[of d cs] by (cases "split_chr d cs") simp_all
  show ?case
  proof (cases "c = d")
    case True
    with v show ?thesis by simp
  next
    case False
    show ?thesis
    proof
      assume "split_chr d (c # cs) = [w]"
      with v False have "vs = []" "w = c # v" by simp_all
      with v Cons.IH[of v] False show "d \<notin> set (c # cs) \<and> w = c # cs" by simp
    next
      assume "d \<notin> set (c # cs) \<and> w = c # cs"
      then show "split_chr d (c # cs) = [w]" using split_chr_no_sep[of d "c # cs"] by simp
    qed
  qed
qed

lemma last_split_chr: "last (split_chr d s) = rev (takeWhile (\<lambda>c. c \<noteq> d) (rev s))"
proof (induction s)
  case Nil
  then show ?case by simp
next
  case (Cons c cs)
  obtain v vs where v: "split_chr d cs = v # vs"
    using split_chr_nonempty[of d cs] by (cases "split_chr d cs") simp_all
  show ?case
  proof (cases "c = d")
    case True
    with v Cons.IH show ?thesis by (simp add: takeWhile_tail)
  next
    case False
    show ?thesis
    proof (cases vs)
      case Nil
      with v have d: "d \<notin> set cs" "v = cs" by (simp_all add: split_chr_single)
      then have "\<forall>x\<in>set (rev cs @ [c]). x \<noteq> d" using False by auto
      then have tw: "takeWhile (\<lambda>c. c \<noteq> d) (rev cs @ [c]) = rev cs @ [c]"
        by (simp only: takeWhile_eq_all_conv)
      from v Nil False d show ?thesis by (simp add: tw)
    next
      case (Cons u us)
      with v have "split_chr d cs \<noteq> [cs]" by auto
      then have "d \<in> set cs" using split_chr_no_sep by blast
      then have "\<exists>x\<in>set (rev cs). \<not> x \<noteq> d" by simp
      then have tw: "takeWhile (\<lambda>c. c \<noteq> d) (rev cs @ [c]) = takeWhile (\<lambda>c. c \<noteq> d) (rev cs)"
        by (simp add: takeWhile_append1)
      from v Cons False Cons.IH show ?thesis by (simp add: tw)
    qed
  qed
qed

lemma pseudo_entry_final: "pseudo_entry p \<longleftrightarrow> pseudo_tag (final_component p)"
  by (simp add: pseudo_entry_def Let_def pseudo_tag_def final_component_def
      last_split_chr contains_sublist)


lemma size_stat_entry_value:
  assumes "size_stat_entry self line = Inr y"
  shows "y = (line ! 0, if fix_size self \<and> pseudo_tagged (line ! 0) then PInt 0 else line ! 11)"
  using assms
  by (auto simp: size_stat_entry_def pseudo_tagged_def pseudo_entry_final
      split: if_splits pyval.splits)

text \<open>
  C5. \<^verbatim>\<open>test_metadata_size\<close> compares these two sets: from each \<^verbatim>\<open>stat\<close> tuple the
  path with size 0 when \<^verbatim>\<open>fix_size\<close> is set and the final path component (what
  follows the last slash) contains \<open>directory\<close>, \<open>subvolume\<close> or \<open>snapshot\<close>, and
  with the reported size \<^verbatim>\<open>line[11]\<close> otherwise; from each \<^verbatim>\<open>tsk\<close> tuple the path
  with its reported size, whatever the switch. It reaches the comparison whenever every
  tuple has twelve fields and, with the switch set, every \<^verbatim>\<open>stat\<close> path is a string.
\<close>

theorem size_override_on_stat_side_only:
  "(test_metadata_size self tsk stat = Inr b \<longrightarrow>
      (b \<longleftrightarrow>
        (\<lambda>line. (line ! 0, if fix_size self \<and> pseudo_tagged (line ! 0) then PInt 0 else line ! 11))
           ` set stat
        = (\<lambda>line. (line ! 0, line ! 11)) ` set tsk)) \<and>
   ((\<forall>line\<in>set tsk. 12 \<le> length line) \<and>
    (\<forall>line\<in>set stat. 12 \<le> length line \<and> (fix_size self \<longrightarrow> (\<exists>p. line ! 0 = PStr p)))
      \<longrightarrow> (\<exists>r. test_metadata_size self tsk stat = Inr r))"
proof (intro conjI impI)
  assume "test_metadata_size self tsk stat = Inr b"
  then obtain t s where t: "add_all size_tsk_entry tsk {} = Inr t"
    and s: "add_all (size_stat_entry self) stat {} = Inr s" and b: "b = (s = t)"
    by (auto simp: test_metadata_size_def split: sum.splits)
  have "t = (\<lambda>line. (line ! 0, line ! 11)) ` set tsk"
    by (rule add_all_image[OF t]) (auto simp: size_tsk_entry_def split: if_splits)
  moreover have "s = (\<lambda>line. (line ! 0,
      if fix_size self \<and> pseudo_tagged (line ! 0) then PInt 0 else line ! 11)) ` set stat"
    by (rule add_all_image[OF s]) (rule size_stat_entry_value)
  ultimately show "b \<longleftrightarrow>
        (\<lambda>line. (line ! 0, if fix_size self \<and> pseudo_tagged (line ! 0) then PInt 0 else line ! 11))
           ` set stat
        = (\<lambda>line. (line ! 0, line ! 11)) ` set tsk"
    using b by simp
next
  assume a: "(\<forall>line\<in>set tsk. 12 \<le> length line) \<and>
    (\<forall>line\<in>set stat. 12 \<le> length line \<and> (fix_size self \<longrightarrow> (\<exists>p. line ! 0 = PStr p)))"
  then have "\<forall>line\<in>set tsk. \<exists>y. size_tsk_entry line = Inr y"
    by (auto simp: size_tsk_entry_def)
  from add_all_total[OF this] obtain t where t: "add_all size_tsk_entry tsk {} = Inr t" by blast
  from a have "\<forall>line\<in>set stat. \<exists>y. size_stat_entry self line = Inr y"
    by (fastforce simp: size_stat_entry_def)
  from add_all_total[OF this] obtain s where "add_all (size_stat_entry self) stat {} = Inr s"
    by blast
  with t show "\<exists>r. test_metadata_size self tsk stat = Inr r"
    by (simp add: test_metadata_size_def)
qed


theorem size_override_on_stat_side_only_witness:
  "test_metadata_size \<lparr>parser = \<lparr>fix_subvols = True, ignore_ext_backup = True\<rparr>,
       fix_size = True, rec_dir = ''.files''\<rparr>
     [example_tuple ''directory1'' 0, example_tuple ''a/subvolume1'' 0,
      example_tuple ''snapshot1/file1'' 5, example_tuple ''snapshot1'' 0]
     [example_tuple ''directory1'' 4096, example_tuple ''a/subvolume1'' 16,
      example_tuple ''snapshot1/file1'' 5, example_tuple ''snapshot1'' 16] = Inr True \<and>
   pseudo_tagged (PStr ''directory1'') \<and> pseudo_tagged (PStr ''a/subvolume1'') \<and>
   pseudo_tagged (PStr ''snapshot1'') \<and> \<not> pseudo_tagged (PStr ''snapshot1/file1'') \<and>
   (\<lambda>line. (line ! 0, if True \<and> pseudo_tagged (line ! 0) then PInt 0 else line ! 11))
      ` set [example_tuple ''directory1'' 4096, example_tuple ''a/subvolume1'' 16,
             example_tuple ''snapshot1/file1'' 5, example_tuple ''snapshot1'' 16]
    = (\<lambda>line. (line ! 0, line ! 11))
      ` set [example_tuple ''directory1'' 0, example_tuple ''a/subvolume1'' 0,
             example_tuple ''snapshot1/file1'' 5, example_tuple ''snapshot1'' 0]"
proof -
  let ?self = "\<lparr>parser = \<lparr>fix_subvols = True, ignore_ext_backup = True\<rparr>,
       fix_size = True, rec_dir = ''.files''\<rparr>"
  let ?tsk = "[example_tuple ''directory1'' 0, example_tuple ''a/subvolume1'' 0,
      example_tuple ''snapshot1/file1'' 5, example_tuple ''snapshot1'' 0]"
  let ?stat = "[example_tuple ''directory1'' 4096, example_tuple ''a/subvolume1'' 16,
      example_tuple ''snapshot1/file1'' 5, example_tuple ''snapshot1'' 16]"
  have h: "test_metadata_size ?self ?tsk ?stat = Inr True" by code_simp
  have g: "(\<forall>line\<in>set ?tsk. 12 \<le> length line) \<and>
    (\<forall>line\<in>set ?stat. 12 \<le> length line \<and> (fix_size ?self \<longrightarrow> (\<exists>p. line ! 0 = PStr p)))"
    by (simp add: example_tuple_def)
  have t: "pseudo_tagged (PStr ''directory1'')" "pseudo_tagged (PStr ''a/subvolume1'')"
    "pseudo_tagged (PStr ''snapshot1'')" "\<not> pseudo_tagged (PStr ''snapshot1/file1'')"
    by code_simp+
  note inst = size_override_on_stat_side_only[where self = ?self and tsk = ?tsk
      and stat = ?stat and b = True]
  from inst h have "(\<lambda>line. (line ! 0,
        if fix_size ?self \<and> pseudo_tagged (line ! 0) then PInt 0 else line ! 11)) ` set ?stat
      = (\<lambda>line. (line ! 0, line ! 11)) ` set ?tsk"
    by blast
  then have c: "(\<lambda>line. (line ! 0, if True \<and> pseudo_tagged (line ! 0) then PInt 0 else line ! 11))
      ` set ?stat = (\<lambda>line. (line ! 0, line ! 11)) ` set ?tsk"
    by simp
  from inst g have "\<exists>r. test_metadata_size ?self ?tsk ?stat = Inr r" by blast
  with h t c show ?thesis by blast
qed

end
